theory Spec2Isabelle
  imports Main "HOL-Library.FSet" "HOL-Library.Char_ord" "HOL-Library.List_Lexorder"
begin

section \<open>Data model\<close>

text \<open>
  A Go value of type \<open>*BST\<close> is either \<open>nil\<close> or points to a node with a topic, a
  subscriber map and two children.  Nodes are never shared between two parents, so the
  pointer structure is a tree and is modelled as a datatype.  The subscriber maps
  \<open>map[string]struct{}\<close> are reference values that the code copies from node to node
  (\<open>curr.uuids = curr.left.uuids\<close>), so two nodes may hold the same map: every node
  stores the address of its map (\<open>None\<close> is the \<open>nil\<close> map) and the maps live in a heap.
\<close>

type_synonym addr = nat

datatype BST =
    NilBST
  | Node (topic: string) (uuids: "addr option") (left: BST) (right: BST)

record heap =
  maps :: "addr \<Rightarrow> string fset"
  fresh :: addr

record index =
  root :: BST
  store :: heap

datatype panic = NilPointerDereference | AssignmentToNilMap

subsection \<open>Operations of Go maps\<close>

text \<open>The composite literal \<open>map[string]struct{}{uuid: {}}\<close> allocates a new map.\<close>

definition make_map :: "string fset \<Rightarrow> heap \<Rightarrow> addr \<times> heap" where
  "make_map s h = (fresh h, h\<lparr>maps := (maps h)(fresh h := s), fresh := Suc (fresh h)\<rparr>)"

text \<open>\<open>len(m)\<close>: a \<open>nil\<close> map has length 0.\<close>

definition len :: "addr option \<Rightarrow> heap \<Rightarrow> nat" where
  "len us h = (case us of None \<Rightarrow> 0 | Some a \<Rightarrow> fcard (maps h a))"

text \<open>\<open>_, ok := m[k]\<close>: reading a \<open>nil\<close> map finds nothing.\<close>

definition has_key :: "addr option \<Rightarrow> string \<Rightarrow> heap \<Rightarrow> bool" where
  "has_key us k h = (case us of None \<Rightarrow> False | Some a \<Rightarrow> k |\<in>| maps h a)"

text \<open>\<open>delete(m, k)\<close>: a no-op on a \<open>nil\<close> map.\<close>

definition delete_key :: "addr option \<Rightarrow> string \<Rightarrow> heap \<Rightarrow> heap" where
  "delete_key us k h =
     (case us of None \<Rightarrow> h
      | Some a \<Rightarrow> h\<lparr>maps := (maps h)(a := maps h a |-| {|k|})\<rparr>)"

text \<open>\<open>m[k] = struct{}{}\<close>: panics on a \<open>nil\<close> map.\<close>

definition assign_key :: "addr option \<Rightarrow> string \<Rightarrow> heap \<Rightarrow> panic + heap" where
  "assign_key us k h =
     (case us of None \<Rightarrow> Inl AssignmentToNilMap
      | Some a \<Rightarrow> Inr (h\<lparr>maps := (maps h)(a := finsert k (maps h a))\<rparr>))"

section \<open>The operations\<close>

text \<open>\<open>NewBST\<close> returns \<open>&BST{}\<close>: empty topic, \<open>nil\<close> map, no children.\<close>

definition NewBST :: index where
  "NewBST = \<lparr>root = Node [] None NilBST NilBST,
             store = \<lparr>maps = (\<lambda>_. {||}), fresh = 0\<rparr>\<rparr>"

text \<open>
  The loop of \<open>Insert\<close>, started at \<open>curr\<close>.  The result is the subtree below the pointer
  \<open>curr\<close> after the call, and the heap.  A \<open>nil\<close> receiver is dereferenced by
  \<open>curr.topic\<close>.
\<close>

fun Insert_at :: "string \<Rightarrow> string \<Rightarrow> BST \<Rightarrow> heap \<Rightarrow> panic + (BST \<times> heap)" where
  "Insert_at uuid tp NilBST h = Inl NilPointerDereference"
| "Insert_at uuid tp (Node ct us l r) h =
     (if ct = tp then
        (case assign_key us uuid h of
           Inl e \<Rightarrow> Inl e
         | Inr h' \<Rightarrow> Inr (Node ct us l r, h'))
      else if ct < tp then
        (if l = NilBST then
           (case make_map {|uuid|} h of
              (a, h') \<Rightarrow> Inr (Node ct us (Node tp (Some a) NilBST NilBST) r, h'))
         else
           (case Insert_at uuid tp l h of
              Inl e \<Rightarrow> Inl e
            | Inr (l', h') \<Rightarrow> Inr (Node ct us l' r, h')))
      else
        (if r = NilBST then
           (case make_map {|uuid|} h of
              (a, h') \<Rightarrow> Inr (Node ct us l (Node tp (Some a) NilBST NilBST), h'))
         else
           (case Insert_at uuid tp r h of
              Inl e \<Rightarrow> Inl e
            | Inr (r', h') \<Rightarrow> Inr (Node ct us l r', h'))))"

definition Insert :: "string \<Rightarrow> string \<Rightarrow> index \<Rightarrow> panic + index" where
  "Insert uuid tp b =
     (case Insert_at uuid tp (root b) (store b) of
        Inl e \<Rightarrow> Inl e
      | Inr (t, h) \<Rightarrow> Inr \<lparr>root = t, store = h\<rparr>)"

text \<open>
  The loop of \<open>Get\<close>: the map of the node found (which may be the \<open>nil\<close> map), or \<open>nil\<close>.
  The source tests \<open>==\<close>, \<open><\<close> and \<open>>\<close> in turn and repeats the loop when none holds;
  string comparison is total, so the third test cannot fail after the first two did
  (lemma \<open>Get_third_test\<close>) and that branch is given the value \<open>None\<close>.
\<close>

fun Get_at :: "string \<Rightarrow> BST \<Rightarrow> addr option" where
  "Get_at tp NilBST = None"
| "Get_at tp (Node ct us l r) =
     (if ct = tp then us
      else if ct < tp then Get_at tp l
      else if ct > tp then Get_at tp r
      else None)"

text \<open>What the caller of \<open>Get\<close> sees: the contents of the returned map, \<open>None\<close> for \<open>nil\<close>.\<close>

definition Get :: "string \<Rightarrow> index \<Rightarrow> string fset option" where
  "Get tp b = map_option (maps (store b)) (Get_at tp (root b))"

fun traverseForMinString :: "BST \<Rightarrow> panic + (string \<times> addr option)" where
  "traverseForMinString NilBST = Inl NilPointerDereference"
| "traverseForMinString (Node ct us l r) =
     (if l = NilBST then Inr (ct, us) else traverseForMinString l)"

text \<open>
  \<open>removeHelper uuid tp hasParent b h\<close>: the loop of \<open>removeHelper\<close> started at \<open>b\<close>, where
  \<open>hasParent\<close> says that the variable \<open>parent\<close> is not \<open>nil\<close>.  The result is the subtree
  that the pointer to \<open>b\<close> refers to afterwards: for a node with a parent, the parent's
  link is overwritten (\<open>parent.left = ...\<close>, \<open>parent.right = ...\<close>; the link the loop
  came through is the one that equals \<open>curr\<close>); for the root, the node is overwritten in
  place.  In the branch for two children the arguments of the recursive call are
  \<open>(curr.topic, uuid)\<close> for the parameters \<open>(uuid, topic)\<close>, as in the source.
\<close>

fun removeHelper :: "string \<Rightarrow> string \<Rightarrow> bool \<Rightarrow> BST \<Rightarrow> heap \<Rightarrow> panic + (BST \<times> heap)" where
  "removeHelper uuid tp hasParent NilBST h = Inr (NilBST, h)"
| "removeHelper uuid tp hasParent (Node ct us l r) h =
     (if tp < ct then
        (case removeHelper uuid tp True l h of
           Inl e \<Rightarrow> Inl e
         | Inr (l', h') \<Rightarrow> Inr (Node ct us l' r, h'))
      else if tp > ct then
        (case removeHelper uuid tp True r h of
           Inl e \<Rightarrow> Inl e
         | Inr (r', h') \<Rightarrow> Inr (Node ct us l r', h'))
      else if len us h > 1 \<and> has_key us uuid h then
        Inr (Node ct us l r, delete_key us uuid h)
      else if l \<noteq> NilBST \<and> r \<noteq> NilBST then
        (case traverseForMinString r of
           Inl e \<Rightarrow> Inl e
         | Inr (mt, mus) \<Rightarrow>
             (case removeHelper mt uuid True r h of
                Inl e \<Rightarrow> Inl e
              | Inr (r', h') \<Rightarrow> Inr (Node mt mus l r', h')))
      else if \<not> hasParent then
        (if l \<noteq> NilBST then Inr (l, h)
         else if r \<noteq> NilBST then Inr (r, h)
         else Inr (Node ct us l r, h))
      else
        (if l \<noteq> NilBST then Inr (l, h) else Inr (r, h)))"

definition Remove :: "string \<Rightarrow> string \<Rightarrow> index \<Rightarrow> panic + index" where
  "Remove uuid tp b =
     (case removeHelper uuid tp False (root b) (store b) of
        Inl e \<Rightarrow> Inl e
      | Inr (t, h) \<Rightarrow> Inr \<lparr>root = t, store = h\<rparr>)"

subsection \<open>Sequences of calls\<close>

datatype call = InsertCall string string | GetCall string | RemoveCall string string

fun step :: "call \<Rightarrow> index \<Rightarrow> panic + index" where
  "step (InsertCall uuid tp) b = Insert uuid tp b"
| "step (GetCall tp) b = Inr b"
| "step (RemoveCall uuid tp) b = Remove uuid tp b"

fun run :: "call list \<Rightarrow> index \<Rightarrow> panic + index" where
  "run [] b = Inr b"
| "run (c # cs) b = (case step c b of Inl e \<Rightarrow> Inl e | Inr b' \<Rightarrow> run cs b')"


section \<open>Observations and invariants\<close>

text \<open>The topics of the nodes of a tree, left subtree first.\<close>

fun topics :: "BST \<Rightarrow> string list" where
  "topics NilBST = []"
| "topics (Node ct us l r) = topics l @ ct # topics r"

text \<open>
  \<open>nodes_ok h t\<close>: every node of \<open>t\<close> holds a map that is not \<open>nil\<close> and not empty.
  \<open>root_ok h t\<close>: the same for every node below the root, while the root, which
  \<open>NewBST\<close> creates with a \<open>nil\<close> map, holds the \<open>nil\<close> map or a map that is not empty.
\<close>

fun nodes_ok :: "heap \<Rightarrow> BST \<Rightarrow> bool" where
  "nodes_ok h NilBST = True"
| "nodes_ok h (Node ct us l r) =
     ((case us of None \<Rightarrow> False | Some a \<Rightarrow> maps h a \<noteq> {||}) \<and> nodes_ok h l \<and> nodes_ok h r)"

fun root_ok :: "heap \<Rightarrow> BST \<Rightarrow> bool" where
  "root_ok h NilBST = False"
| "root_ok h (Node ct us l r) =
     ((case us of None \<Rightarrow> True | Some a \<Rightarrow> maps h a \<noteq> {||}) \<and> nodes_ok h l \<and> nodes_ok h r)"

definition index_ok :: "index \<Rightarrow> bool" where
  "index_ok b = root_ok (store b) (root b)"

text \<open>\<open>keeps h h'\<close>: no map that has an entry in \<open>h\<close> is empty in \<open>h'\<close>.\<close>

definition keeps :: "heap \<Rightarrow> heap \<Rightarrow> bool" where
  "keeps h h' = (\<forall>a. maps h a \<noteq> {||} \<longrightarrow> maps h' a \<noteq> {||})"

section \<open>Basic facts\<close>

lemmas eval_defs =
  NewBST_def Insert_def Remove_def Get_def make_map_def assign_key_def len_def has_key_def
  delete_key_def fcard_finsert_if

lemma Get_third_test: "ct \<noteq> tp \<Longrightarrow> \<not> ct < tp \<Longrightarrow> ct > (tp::string)"
  by (simp add: not_less order_less_le)

lemma Insert_at_not_nil: "Insert_at uuid tp t h = Inr (t', h') \<Longrightarrow> t' \<noteq> NilBST"
  by (cases t) (auto split: if_splits sum.splits prod.splits)

lemma assign_key_twice: "assign_key us k h = Inr h' \<Longrightarrow> assign_key us k h' = Inr h'"
  by (cases us) (auto simp: assign_key_def)

lemma Insert_at_twice:
  "Insert_at uuid tp t h = Inr (t', h') \<Longrightarrow> Insert_at uuid tp t' h' = Inr (t', h')"
proof (induction t arbitrary: t' h')
  case NilBST
  then show ?case by simp
next
  case (Node ct us l r)
  show ?case
  proof (cases "ct = tp")
    case True
    with Node.prems show ?thesis
      by (auto split: sum.splits dest: assign_key_twice)
  next
    case ne: False
    show ?thesis
    proof (cases "ct < tp")
      case True
      show ?thesis
      proof (cases "l = NilBST")
        case True
        with Node.prems ne \<open>ct < tp\<close> show ?thesis
          by (auto simp: make_map_def assign_key_def)
      next
        case False
        with Node.prems ne \<open>ct < tp\<close> obtain l' where
          l': "Insert_at uuid tp l h = Inr (l', h')" and t': "t' = Node ct us l' r"
          by (auto split: sum.splits)
        from Node.IH(1)[OF l'] Insert_at_not_nil[OF l'] t' ne \<open>ct < tp\<close> show ?thesis
          by simp
      qed
    next
      case ge: False
      show ?thesis
      proof (cases "r = NilBST")
        case True
        with Node.prems ne ge show ?thesis
          by (auto simp: make_map_def assign_key_def)
      next
        case False
        with Node.prems ne ge obtain r' where
          r': "Insert_at uuid tp r h = Inr (r', h')" and t': "t' = Node ct us l r'"
          by (auto split: sum.splits)
        from Node.IH(2)[OF r'] Insert_at_not_nil[OF r'] t' ne ge show ?thesis
          by simp
      qed
    qed
  qed
qed

subsection \<open>\<open>Remove\<close> never panics\<close>

lemma traverseForMinString_total: "t \<noteq> NilBST \<Longrightarrow> \<exists>m. traverseForMinString t = Inr m"
  by (induction t) auto

lemma removeHelper_total: "\<exists>res. removeHelper uuid tp hp t h = Inr res"
proof (induction uuid tp hp t h rule: removeHelper.induct)
  case (1 uuid tp hasParent h)
  show ?case by simp
next
  case (2 uuid tp hasParent ct us l r h)
  show ?case
  proof (cases "tp < ct")
    case True
    from "2.IH"(1)[OF True] show ?thesis using True by auto
  next
    case nl: False
    show ?thesis
    proof (cases "tp > ct")
      case True
      from "2.IH"(2)[OF nl True] show ?thesis using nl True by auto
    next
      case ng: False
      show ?thesis
      proof (cases "len us h > 1 \<and> has_key us uuid h")
        case True
        with nl ng show ?thesis by simp
      next
        case nd: False
        show ?thesis
        proof (cases "l \<noteq> NilBST \<and> r \<noteq> NilBST")
          case True
          then obtain mt mus where m: "traverseForMinString r = Inr (mt, mus)"
            using traverseForMinString_total[of r] by auto
          from "2.IH"(3)[OF nl ng nd True m refl] obtain res where
            "removeHelper mt uuid True r h = Inr res" by blast
          with nl ng nd True m show ?thesis by (cases res) simp
        next
          case False
          with nl ng nd show ?thesis by auto
        qed
      qed
    qed
  qed
qed

lemma Remove_total: "\<exists>b'. Remove uuid tp b = Inr b'"
  using removeHelper_total[of uuid tp False "root b" "store b"]
  by (auto simp: Remove_def)


text \<open>A topic that no node holds is not found, whichever way the search goes.\<close>

lemma removeHelper_absent_topic:
  "tp \<notin> set (topics t) \<Longrightarrow> removeHelper uuid tp hp t h = Inr (t, h)"
  by (induction t arbitrary: hp) auto

subsection \<open>Preservation of the invariant\<close>

lemma keeps_refl: "keeps h h"
  by (simp add: keeps_def)

lemma nodes_ok_keeps: "nodes_ok h t \<Longrightarrow> keeps h h' \<Longrightarrow> nodes_ok h' t"
  by (induction t) (auto simp: keeps_def split: option.splits)

lemma root_ok_keeps: "root_ok h t \<Longrightarrow> keeps h h' \<Longrightarrow> root_ok h' t"
  by (cases t) (auto simp: keeps_def split: option.splits dest: nodes_ok_keeps[unfolded keeps_def])

lemma nodes_ok_root_ok: "nodes_ok h t \<Longrightarrow> t \<noteq> NilBST \<Longrightarrow> root_ok h t"
  by (cases t) (auto split: option.splits)

lemma keeps_assign_key: "assign_key us k h = Inr h' \<Longrightarrow> keeps h h'"
  by (cases us) (auto simp: assign_key_def keeps_def split: if_splits)

lemma assign_key_nonempty:
  "assign_key us k h = Inr h' \<Longrightarrow> \<exists>a. us = Some a \<and> maps h' a \<noteq> {||}"
  by (cases us) (auto simp: assign_key_def)

lemma keeps_make_map: "make_map {|k|} h = (a, h') \<Longrightarrow> keeps h h' \<and> maps h' a \<noteq> {||}"
  by (auto simp: make_map_def keeps_def split: if_splits)

lemma fminus_single_nonempty: "1 < fcard s \<Longrightarrow> s |-| {|k|} \<noteq> {||}"
proof
  assume big: "1 < fcard s" and e: "s |-| {|k|} = {||}"
  from e have "s |\<subseteq>| {|k|}" by auto
  then have "fcard s \<le> fcard {|k|}" by (rule fcard_mono)
  with big show False by (simp add: fcard_finsert_if fcard_fempty)
qed

lemma keeps_delete_key: "1 < len us h \<Longrightarrow> keeps h (delete_key us k h)"
proof (cases us)
  case None
  then show ?thesis by (simp add: delete_key_def keeps_def)
next
  case (Some a)
  assume "1 < len us h"
  with Some have "maps h a |-| {|k|} \<noteq> {||}"
    by (intro fminus_single_nonempty) (simp add: len_def)
  with Some show ?thesis by (simp add: delete_key_def keeps_def)
qed

lemma traverseForMinString_ok:
  "nodes_ok h t \<Longrightarrow> traverseForMinString t = Inr (mt, mus) \<Longrightarrow> \<exists>a. mus = Some a \<and> maps h a \<noteq> {||}"
  by (induction t) (auto split: if_splits option.splits)

lemma Insert_at_nodes_ok:
  "nodes_ok h t \<Longrightarrow> Insert_at uuid tp t h = Inr (t', h') \<Longrightarrow> nodes_ok h' t' \<and> keeps h h'"
proof (induction t arbitrary: t' h')
  case NilBST
  then show ?case by simp
next
  case (Node ct us l r)
  from Node.prems(1) have okl: "nodes_ok h l" and okr: "nodes_ok h r" by simp_all
  show ?case
  proof (cases "ct = tp")
    case True
    with Node.prems(2) have a: "assign_key us uuid h = Inr h'" and t': "t' = Node ct us l r"
      by (auto split: sum.splits)
    from keeps_assign_key[OF a] assign_key_nonempty[OF a] okl okr t' show ?thesis
      by (auto dest: nodes_ok_keeps)
  next
    case ne: False
    show ?thesis
    proof (cases "ct < tp")
      case True
      show ?thesis
      proof (cases "l = NilBST")
        case True
        with Node.prems(2) ne \<open>ct < tp\<close> obtain a where
          m: "make_map {|uuid|} h = (a, h')" and t': "t' = Node ct us (Node tp (Some a) NilBST NilBST) r"
          by (auto split: prod.splits)
        from keeps_make_map[OF m] Node.prems(1) t' show ?thesis
          by (auto dest: nodes_ok_keeps simp: keeps_def split: option.splits)
      next
        case False
        with Node.prems(2) ne \<open>ct < tp\<close> obtain l' where
          l': "Insert_at uuid tp l h = Inr (l', h')" and t': "t' = Node ct us l' r"
          by (auto split: sum.splits)
        from Node.IH(1)[OF okl l'] Node.prems(1) t' show ?thesis
          by (auto dest: nodes_ok_keeps simp: keeps_def split: option.splits)
      qed
    next
      case ge: False
      show ?thesis
      proof (cases "r = NilBST")
        case True
        with Node.prems(2) ne ge obtain a where
          m: "make_map {|uuid|} h = (a, h')" and t': "t' = Node ct us l (Node tp (Some a) NilBST NilBST)"
          by (auto split: prod.splits)
        from keeps_make_map[OF m] Node.prems(1) t' show ?thesis
          by (auto dest: nodes_ok_keeps simp: keeps_def split: option.splits)
      next
        case False
        with Node.prems(2) ne ge obtain r' where
          r': "Insert_at uuid tp r h = Inr (r', h')" and t': "t' = Node ct us l r'"
          by (auto split: sum.splits)
        from Node.IH(2)[OF okr r'] Node.prems(1) t' show ?thesis
          by (auto dest: nodes_ok_keeps simp: keeps_def split: option.splits)
      qed
    qed
  qed
qed



lemma removeHelper_nodes_ok:
  "nodes_ok h t \<Longrightarrow> removeHelper uuid tp hp t h = Inr (t', h') \<Longrightarrow> nodes_ok h' t' \<and> keeps h h'"
proof (induction uuid tp hp t h arbitrary: t' h' rule: removeHelper.induct)
  case (1 uuid tp hasParent h)
  then show ?case by (simp add: keeps_refl)
next
  case (2 uuid tp hasParent ct us l r h)
  from "2.prems"(1) obtain a where us: "us = Some a" and ne: "maps h a \<noteq> {||}"
    and okl: "nodes_ok h l" and okr: "nodes_ok h r"
    by (auto split: option.splits)
  show ?case
  proof (cases "tp < ct")
    case True
    with "2.prems"(2) obtain l' where
      l': "removeHelper uuid tp True l h = Inr (l', h')" and t': "t' = Node ct us l' r"
      by (auto split: sum.splits)
    from "2.IH"(1)[OF True okl l'] have "nodes_ok h' l'" and k: "keeps h h'" by simp_all
    with t' us ne okr show ?thesis
      by (auto simp: keeps_def dest: nodes_ok_keeps)
  next
    case nl: False
    show ?thesis
    proof (cases "tp > ct")
      case True
      with "2.prems"(2) nl obtain r' where
        r': "removeHelper uuid tp True r h = Inr (r', h')" and t': "t' = Node ct us l r'"
        by (auto split: sum.splits)
      from "2.IH"(2)[OF nl True okr r'] have "nodes_ok h' r'" and k: "keeps h h'" by simp_all
      with t' us ne okl show ?thesis
        by (auto simp: keeps_def dest: nodes_ok_keeps)
    next
      case ng: False
      show ?thesis
      proof (cases "len us h > 1 \<and> has_key us uuid h")
        case True
        with "2.prems"(2) nl ng have t': "t' = Node ct us l r" and h': "h' = delete_key us uuid h"
          by simp_all
        from True have k: "keeps h h'" unfolding h' by (simp add: keeps_delete_key)
        with t' "2.prems"(1) show ?thesis by (blast intro: nodes_ok_keeps)
      next
        case nd: False
        show ?thesis
        proof (cases "l \<noteq> NilBST \<and> r \<noteq> NilBST")
          case True
          with "2.prems"(2) nl ng nd obtain mt mus r' where
            m: "traverseForMinString r = Inr (mt, mus)"
            and r': "removeHelper mt uuid True r h = Inr (r', h')"
            and t': "t' = Node mt mus l r'"
            by (auto split: sum.splits prod.splits)
          from traverseForMinString_ok[OF okr m] obtain b where
            mus: "mus = Some b" and neb: "maps h b \<noteq> {||}" by blast
          from "2.IH"(3)[OF nl ng nd True m refl okr r']
          have "nodes_ok h' r'" and k: "keeps h h'" by simp_all
          with t' mus neb okl show ?thesis
            by (auto simp: keeps_def dest: nodes_ok_keeps)
        next
          case False
          with "2.prems"(2) nl ng nd have "h' = h" and "t' = l \<or> t' = r \<or> t' = Node ct us l r"
            by (auto split: if_splits)
          with "2.prems"(1) okl okr show ?thesis
            by (auto simp: keeps_refl)
        qed
      qed
    qed
  qed
qed


lemma Insert_at_root_ok:
  "root_ok h t \<Longrightarrow> Insert_at uuid tp t h = Inr (t', h') \<Longrightarrow> root_ok h' t' \<and> keeps h h'"
proof (cases t)
  case NilBST
  assume "root_ok h t" with NilBST show ?thesis by simp
next
  case (Node ct us l r)
  assume ok: "root_ok h t" and ins: "Insert_at uuid tp t h = Inr (t', h')"
  from ok Node have okl: "nodes_ok h l" and okr: "nodes_ok h r" by simp_all
  show ?thesis
  proof (cases "ct = tp")
    case True
    with ins Node have a: "assign_key us uuid h = Inr h'" and t': "t' = Node ct us l r"
      by (auto split: sum.splits)
    from keeps_assign_key[OF a] assign_key_nonempty[OF a] okl okr t' show ?thesis
      by (auto dest: nodes_ok_keeps)
  next
    case ne: False
    show ?thesis
    proof (cases "ct < tp")
      case True
      show ?thesis
      proof (cases "l = NilBST")
        case True
        with ins Node ne \<open>ct < tp\<close> obtain a where
          m: "make_map {|uuid|} h = (a, h')" and t': "t' = Node ct us (Node tp (Some a) NilBST NilBST) r"
          by (auto split: prod.splits)
        from keeps_make_map[OF m] ok Node t' show ?thesis
          by (auto dest: nodes_ok_keeps simp: keeps_def split: option.splits)
      next
        case False
        with ins Node ne \<open>ct < tp\<close> obtain l' where
          l': "Insert_at uuid tp l h = Inr (l', h')" and t': "t' = Node ct us l' r"
          by (auto split: sum.splits)
        from Insert_at_nodes_ok[OF okl l'] ok Node t' show ?thesis
          by (auto dest: nodes_ok_keeps simp: keeps_def split: option.splits)
      qed
    next
      case ge: False
      show ?thesis
      proof (cases "r = NilBST")
        case True
        with ins Node ne ge obtain a where
          m: "make_map {|uuid|} h = (a, h')" and t': "t' = Node ct us l (Node tp (Some a) NilBST NilBST)"
          by (auto split: prod.splits)
        from keeps_make_map[OF m] ok Node t' show ?thesis
          by (auto dest: nodes_ok_keeps simp: keeps_def split: option.splits)
      next
        case False
        with ins Node ne ge obtain r' where
          r': "Insert_at uuid tp r h = Inr (r', h')" and t': "t' = Node ct us l r'"
          by (auto split: sum.splits)
        from Insert_at_nodes_ok[OF okr r'] ok Node t' show ?thesis
          by (auto dest: nodes_ok_keeps simp: keeps_def split: option.splits)
      qed
    qed
  qed
qed

lemma removeHelper_root_ok:
  "root_ok h t \<Longrightarrow> removeHelper uuid tp False t h = Inr (t', h') \<Longrightarrow> root_ok h' t' \<and> keeps h h'"
proof (cases t)
  case NilBST
  assume "root_ok h t" with NilBST show ?thesis by simp
next
  case (Node ct us l r)
  assume ok: "root_ok h t" and rm: "removeHelper uuid tp False t h = Inr (t', h')"
  from ok Node have okl: "nodes_ok h l" and okr: "nodes_ok h r" by simp_all
  show ?thesis
  proof (cases "tp < ct")
    case True
    with rm Node obtain l' where
      l': "removeHelper uuid tp True l h = Inr (l', h')" and t': "t' = Node ct us l' r"
      by (auto split: sum.splits)
    from removeHelper_nodes_ok[OF okl l'] ok Node t' show ?thesis
      by (auto dest: nodes_ok_keeps simp: keeps_def split: option.splits)
  next
    case nl: False
    show ?thesis
    proof (cases "tp > ct")
      case True
      with rm Node nl obtain r' where
        r': "removeHelper uuid tp True r h = Inr (r', h')" and t': "t' = Node ct us l r'"
        by (auto split: sum.splits)
      from removeHelper_nodes_ok[OF okr r'] ok Node t' show ?thesis
        by (auto dest: nodes_ok_keeps simp: keeps_def split: option.splits)
    next
      case ng: False
      show ?thesis
      proof (cases "len us h > 1 \<and> has_key us uuid h")
        case True
        with rm Node nl ng have t': "t' = t" and h': "h' = delete_key us uuid h"
          by simp_all
        from True have k: "keeps h h'" unfolding h' by (simp add: keeps_delete_key)
        with t' ok show ?thesis by (blast intro: root_ok_keeps)
      next
        case nd: False
        show ?thesis
        proof (cases "l \<noteq> NilBST \<and> r \<noteq> NilBST")
          case True
          with rm Node nl ng nd obtain mt mus r' where
            m: "traverseForMinString r = Inr (mt, mus)"
            and r': "removeHelper mt uuid True r h = Inr (r', h')"
            and t': "t' = Node mt mus l r'"
            by (auto split: sum.splits prod.splits)
          from traverseForMinString_ok[OF okr m] obtain b where
            mus: "mus = Some b" and neb: "maps h b \<noteq> {||}" by blast
          from removeHelper_nodes_ok[OF okr r']
          have "nodes_ok h' r'" and k: "keeps h h'" by simp_all
          with t' mus neb okl show ?thesis
            by (auto simp: keeps_def dest: nodes_ok_keeps)
        next
          case False
          with rm Node nl ng nd have h': "h' = h"
            and "(t' = l \<and> l \<noteq> NilBST) \<or> (t' = r \<and> r \<noteq> NilBST) \<or> t' = t"
            by (auto split: if_splits)
          with ok okl okr show ?thesis
            by (auto simp: keeps_refl intro: nodes_ok_root_ok)
        qed
      qed
    qed
  qed
qed

lemma index_ok_NewBST: "index_ok NewBST"
  by (simp add: index_ok_def NewBST_def)

lemma step_index_ok: "index_ok b \<Longrightarrow> step c b = Inr b' \<Longrightarrow> index_ok b'"
proof (cases c)
  case (InsertCall uuid tp)
  assume "index_ok b" "step c b = Inr b'"
  with InsertCall show ?thesis
    by (auto simp: index_ok_def Insert_def split: sum.splits dest: Insert_at_root_ok)
next
  case (GetCall tp)
  assume "index_ok b" "step c b = Inr b'"
  with GetCall show ?thesis by simp
next
  case (RemoveCall uuid tp)
  assume "index_ok b" "step c b = Inr b'"
  with RemoveCall show ?thesis
    by (auto simp: index_ok_def Remove_def split: sum.splits dest: removeHelper_root_ok)
qed

lemma run_index_ok: "index_ok b \<Longrightarrow> run cs b = Inr b' \<Longrightarrow> index_ok b'"
  by (induction cs arbitrary: b) (auto split: sum.splits dest: step_index_ok)


section \<open>The claims\<close>

text \<open>
  C1 (membership correctness).  After any sequence of calls, \<open>Get T\<close> should return
  exactly the identifiers inserted on \<open>T\<close> and not removed since.  The code does not:
  \<open>Insert\<close> puts the topic \<open>a\<close>, which is greater than the root's empty topic, into the
  left subtree, \<open>Remove\<close> looks for it in the right subtree (\<open>topic > curr.topic\<close>),
  finds nothing, and \<open>u1\<close> stays subscribed.
\<close>

theorem removed_uuid_still_returned:
  "(case run [InsertCall ''u1'' ''a'', RemoveCall ''u1'' ''a''] NewBST of
      Inl e \<Rightarrow> False
    | Inr b \<Rightarrow> Get ''a'' b = Some {|''u1''|})"
  by (simp add: eval_defs)

text \<open>
  C2 (scenario B).  After the three inserts of scenario A and \<open>Remove u1 orders\<close>,
  \<open>Get orders\<close> should be \<open>{u2}\<close>.  In the code it is still \<open>{u1, u2}\<close>: the search of
  \<open>Remove\<close> leaves the root to the right, where there is no node.
\<close>

theorem scenario_B_u1_not_removed:
  "(case run [InsertCall ''u1'' ''orders'', InsertCall ''u2'' ''orders'',
              InsertCall ''u1'' ''alerts'', RemoveCall ''u1'' ''orders''] NewBST of
      Inl e \<Rightarrow> False
    | Inr b \<Rightarrow>
        Get ''orders'' b = Some {|''u1'', ''u2''|} \<and> Get ''orders'' b \<noteq> Some {|''u2''|})"
  by (auto simp add: eval_defs)

text \<open>
  C3 (one direction for all three operations).  At a node with topic \<open>m\<close>, \<open>Insert\<close>
  places the lesser topic \<open>a\<close> in the right child and \<open>Get\<close> finds it there and not in
  the left child; \<open>removeHelper\<close> leaves the tree alone when \<open>a\<close> is in the right child
  and unlinks it when it is in the left child.  So \<open>Insert\<close> and \<open>Get\<close> route lesser
  topics to the right and \<open>Remove\<close> routes them to the left.
\<close>

theorem Remove_searches_the_other_side:
  "Insert_at ''v'' ''a'' (Node ''m'' (Some 0) NilBST NilBST)
       \<lparr>maps = (\<lambda>_. {||})(0 := {|''u''|}), fresh = 1\<rparr>
     = Inr (Node ''m'' (Some 0) NilBST (Node ''a'' (Some 1) NilBST NilBST), \<lparr>maps = (\<lambda>_. {||})(0 := {|''u''|}, 1 := {|''v''|}), fresh = 2\<rparr>)
   \<and> Get_at ''a'' (Node ''m'' (Some 0) NilBST (Node ''a'' (Some 1) NilBST NilBST)) = Some 1
   \<and> Get_at ''a'' (Node ''m'' (Some 0) (Node ''a'' (Some 1) NilBST NilBST) NilBST) = None
   \<and> removeHelper ''v'' ''a'' False
        (Node ''m'' (Some 0) NilBST (Node ''a'' (Some 1) NilBST NilBST)) \<lparr>maps = (\<lambda>_. {||})(0 := {|''u''|}, 1 := {|''v''|}), fresh = 2\<rparr>
     = Inr (Node ''m'' (Some 0) NilBST (Node ''a'' (Some 1) NilBST NilBST), \<lparr>maps = (\<lambda>_. {||})(0 := {|''u''|}, 1 := {|''v''|}), fresh = 2\<rparr>)
   \<and> removeHelper ''v'' ''a'' False
        (Node ''m'' (Some 0) (Node ''a'' (Some 1) NilBST NilBST) NilBST) \<lparr>maps = (\<lambda>_. {||})(0 := {|''u''|}, 1 := {|''v''|}), fresh = 2\<rparr>
     = Inr (Node ''m'' (Some 0) NilBST NilBST, \<lparr>maps = (\<lambda>_. {||})(0 := {|''u''|}, 1 := {|''v''|}), fresh = 2\<rparr>)"
  by (simp add: eval_defs)

text \<open>
  C4 (removal of an absent pair is a no-op).  A node that holds more than one
  subscriber and not the one named should be left alone.  In the code the test
  \<open>len(curr.uuids) > 1\<close> succeeds, the lookup fails, and control falls through to the
  structural deletion: the node \<open>m\<close> with its subscribers \<open>u1\<close> and \<open>u2\<close> is deleted by
  \<open>Remove u9 m\<close>.  (The first \<open>Remove\<close>, on the empty topic, replaces the root created
  by \<open>NewBST\<close> with its left child, so that \<open>m\<close> is the root and the search finds it.)
\<close>

theorem Remove_absent_uuid_deletes_topic:
  "(case run [InsertCall ''u1'' ''m'', InsertCall ''u2'' ''m'', InsertCall ''u3'' ''z'',
              RemoveCall ''x'' []] NewBST of
      Inl e \<Rightarrow> False
    | Inr b \<Rightarrow>
        root b = Node ''m'' (Some 0) (Node ''z'' (Some 1) NilBST NilBST) NilBST \<and>
        Get ''m'' b = Some {|''u1'', ''u2''|} \<and>
        (case Remove ''u9'' ''m'' b of
           Inl e \<Rightarrow> False
         | Inr b' \<Rightarrow> root b' = Node ''z'' (Some 1) NilBST NilBST \<and> Get ''m'' b' = None))"
  by (auto simp add: eval_defs)

text \<open>
  C5 (\<open>Insert\<close> never fails).  On a fresh index the root has the empty topic and a
  \<open>nil\<close> map, so \<open>Insert\<close> with the empty topic matches the root and assigns to an entry
  of a \<open>nil\<close> map, which panics.
\<close>

theorem Insert_empty_topic_panics:
  "Insert ''u1'' [] NewBST = Inl AssignmentToNilMap"
  by (simp add: eval_defs)

text \<open>
  C6 (deletion of a node with two children).  The successor's topic and map are copied
  into the node, and the successor should then be deleted from the right subtree.  The
  recursive call passes \<open>(curr.topic, uuid)\<close> for the parameters \<open>(uuid, topic)\<close>, so it
  searches the right subtree for the topic \<open>u1\<close>, finds nothing, and the topic \<open>a\<close>
  stays in two nodes, which share one map.
\<close>

theorem two_children_successor_not_deleted:
  "(case run [InsertCall ''u1'' ''m'', InsertCall ''u2'' ''z'', InsertCall ''u3'' ''a'',
              RemoveCall ''x'' []] NewBST of
      Inl e \<Rightarrow> False
    | Inr b \<Rightarrow>
        root b = Node ''m'' (Some 0) (Node ''z'' (Some 1) NilBST NilBST)
                   (Node ''a'' (Some 2) NilBST NilBST) \<and>
        traverseForMinString (right (root b)) = Inr (''a'', Some 2) \<and>
        (case Remove ''u1'' ''m'' b of
           Inl e \<Rightarrow> False
         | Inr b' \<Rightarrow>
             root b' = Node ''a'' (Some 2) (Node ''z'' (Some 1) NilBST NilBST)
                         (Node ''a'' (Some 2) NilBST NilBST) \<and>
             topics (root b') = [''z'', ''a'', ''a'']))"
  by (simp add: eval_defs)

text \<open>
  C7 (scenario A).  After \<open>Insert u1 orders\<close>, \<open>Insert u2 orders\<close> and
  \<open>Insert u1 alerts\<close> on a fresh index, no call has panicked, \<open>Get orders\<close> is
  \<open>{u1, u2}\<close>, \<open>Get alerts\<close> is \<open>{u1}\<close> and \<open>Get billing\<close> is \<open>nil\<close>.
\<close>

theorem scenario_A:
  "(case run [InsertCall ''u1'' ''orders'', InsertCall ''u2'' ''orders'',
              InsertCall ''u1'' ''alerts''] NewBST of
      Inl e \<Rightarrow> False
    | Inr b \<Rightarrow>
        Get ''orders'' b = Some {|''u1'', ''u2''|} \<and>
        Get ''alerts'' b = Some {|''u1''|} \<and>
        Get ''billing'' b = None)"
  by (auto simp add: eval_defs)

text \<open>
  C8 (idempotence).  In every state in which \<open>Insert uuid tp\<close> completes, a second
  \<open>Insert uuid tp\<close> completes too and leaves the state it finds: the tree, every map and
  the allocation counter are the same after two calls as after one.
\<close>

theorem Insert_idempotent:
  "Insert uuid tp b = Inr b' \<Longrightarrow> Insert uuid tp b' = Inr b'"
  by (auto simp: Insert_def split: sum.splits dest: Insert_at_twice)

text \<open>Witness for C8: the first subscription on a fresh index, repeated.\<close>

theorem Insert_idempotent_witness:
  "Insert ''u1'' ''orders'' NewBST =
     Inr \<lparr>root = Node [] None (Node ''orders'' (Some 0) NilBST NilBST) NilBST,
          store = \<lparr>maps = (\<lambda>_. {||})(0 := {|''u1''|}), fresh = 1\<rparr>\<rparr>
   \<and> Insert ''u1'' ''orders''
       \<lparr>root = Node [] None (Node ''orders'' (Some 0) NilBST NilBST) NilBST,
          store = \<lparr>maps = (\<lambda>_. {||})(0 := {|''u1''|}), fresh = 1\<rparr>\<rparr> =
     Inr \<lparr>root = Node [] None (Node ''orders'' (Some 0) NilBST NilBST) NilBST,
          store = \<lparr>maps = (\<lambda>_. {||})(0 := {|''u1''|}), fresh = 1\<rparr>\<rparr>"
proof -
  have first: "Insert ''u1'' ''orders'' NewBST =
     Inr \<lparr>root = Node [] None (Node ''orders'' (Some 0) NilBST NilBST) NilBST,
          store = \<lparr>maps = (\<lambda>_. {||})(0 := {|''u1''|}), fresh = 1\<rparr>\<rparr>"
    by (simp add: eval_defs)
  from first Insert_idempotent[OF first] show ?thesis by (rule conjI)
qed

text \<open>
  C9 (no node with an empty subscriber set; the last removal deletes the node), as
  stated, fails twice.  The root of a fresh index is a node whose map is \<open>nil\<close>, so it
  holds no subscriber; and after \<open>Insert u1 a\<close>, \<open>Remove u1 a\<close> the node for \<open>a\<close> is
  still in the tree.
\<close>

theorem fresh_root_has_no_subscriber:
  "run [] NewBST = Inr NewBST
   \<and> \<not> nodes_ok (store NewBST) (root NewBST)
   \<and> len (uuids (root NewBST)) (store NewBST) = 0
   \<and> (case run [InsertCall ''u1'' ''a'', RemoveCall ''u1'' ''a''] NewBST of
        Inl e \<Rightarrow> False
      | Inr b \<Rightarrow> ''a'' \<in> set (topics (root b)))"
  by (simp add: eval_defs)

text \<open>
  C9, amended.  In every state reachable from a fresh index by \<open>Insert\<close>, \<open>Get\<close> and
  \<open>Remove\<close> calls, every node other than the root holds a map that is not \<open>nil\<close> and not
  empty, and the root holds the \<open>nil\<close> map or a map that is not empty.
\<close>

theorem reachable_index_ok:
  "run cs NewBST = Inr b \<Longrightarrow> index_ok b"
  using index_ok_NewBST by (rule run_index_ok)

text \<open>Witness for C9: two subscriptions, then the root is replaced by its left child.\<close>

theorem reachable_index_ok_witness:
  "run [InsertCall ''u1'' ''m'', InsertCall ''u2'' ''z'', RemoveCall ''x'' []] NewBST =
     Inr \<lparr>root = Node ''m'' (Some 0) (Node ''z'' (Some 1) NilBST NilBST) NilBST,
          store = \<lparr>maps = (\<lambda>_. {||})(0 := {|''u1''|}, 1 := {|''u2''|}), fresh = 2\<rparr>\<rparr>
   \<and> index_ok \<lparr>root = Node ''m'' (Some 0) (Node ''z'' (Some 1) NilBST NilBST) NilBST,
          store = \<lparr>maps = (\<lambda>_. {||})(0 := {|''u1''|}, 1 := {|''u2''|}), fresh = 2\<rparr>\<rparr>"
proof -
  have r: "run [InsertCall ''u1'' ''m'', InsertCall ''u2'' ''z'', RemoveCall ''x'' []] NewBST =
     Inr \<lparr>root = Node ''m'' (Some 0) (Node ''z'' (Some 1) NilBST NilBST) NilBST,
          store = \<lparr>maps = (\<lambda>_. {||})(0 := {|''u1''|}, 1 := {|''u2''|}), fresh = 2\<rparr>\<rparr>"
    by (simp add: eval_defs)
  from r reachable_index_ok[OF r] show ?thesis by (rule conjI)
qed

text \<open>
  C10 (fresh index).  Before any \<open>Insert\<close>, \<open>Get\<close> returns \<open>nil\<close> for every topic: the
  empty topic matches the root, whose map is \<open>nil\<close>, and every other topic is greater
  than the empty one and leads to the left child, which is \<open>nil\<close>.
\<close>

theorem Get_fresh_index_nil:
  "Get tp NewBST = None"
  by (simp add: eval_defs)

end
